theory Spec2Isabelle
  imports Complex_Main "HOL-Library.Word"
begin

unbundle bit_operations_syntax

section \<open>Talisman metrics/distance/hamming\<close>

subsection \<open>Sequences, references and numbers\<close>

text \<open>
  The functions of \<^verbatim>\<open>hamming.js\<close> take ``mixed'' sequences: a JavaScript string or an
  array. A string is a primitive, so \<^verbatim>\<open>a === b\<close> on two strings compares their contents.
  An array is an object, so \<^verbatim>\<open>a === b\<close> on two arrays compares their references. The
  model keeps both: a string carries its elements, an array is an address into a store
  that holds the elements of every array.
\<close>

type_synonym addr = nat

datatype 'a seq = Str "'a list" | Arr addr

type_synonym 'a store = "addr \<Rightarrow> 'a list"

fun elems :: "'a store \<Rightarrow> 'a seq \<Rightarrow> 'a list" where
  "elems h (Str s) = s"
| "elems h (Arr r) = h r"

text \<open>The operator \<^verbatim>\<open>===\<close> on two sequences.\<close>

fun strict_eq :: "'a seq \<Rightarrow> 'a seq \<Rightarrow> bool" where
  "strict_eq (Str s) (Str t) = (s = t)"
| "strict_eq (Arr r) (Arr q) = (r = q)"
| "strict_eq (Str s) (Arr q) = False"
| "strict_eq (Arr r) (Str t) = False"

text \<open>
  Indexing \<^verbatim>\<open>a[i]\<close>: out of range JavaScript yields \<^verbatim>\<open>undefined\<close>, here \<open>None\<close>.
  The elements are values of any type \<open>'a\<close> on which \<^verbatim>\<open>!==\<close> is plain inequality
  (characters, integers, references); the floating-point \<^verbatim>\<open>NaN\<close>, which differs from
  itself, is not among them.
\<close>

definition js_nth :: "'a list \<Rightarrow> nat \<Rightarrow> 'a option" where
  "js_nth xs i = (if i < length xs then Some (xs ! i) else None)"

text \<open>
  The numbers the normalized functions return. The quotient of two counts is taken in
  the reals; what JavaScript does at a zero divisor is written out: \<^verbatim>\<open>0 / 0\<close> is
  \<^verbatim>\<open>NaN\<close> and \<^verbatim>\<open>n / 0\<close> is \<^verbatim>\<open>Infinity\<close> for a positive \<^verbatim>\<open>n\<close>.
\<close>

datatype jsnum = Num real | PosInf | NegInf | NaN

definition js_div :: "nat \<Rightarrow> nat \<Rightarrow> jsnum" where
  "js_div d n = (if n = 0 then (if d = 0 then NaN else PosInf) else Num (real d / real n))"

text \<open>The subtraction \<^verbatim>\<open>1 - x\<close>.\<close>

fun js_one_minus :: "jsnum \<Rightarrow> jsnum" where
  "js_one_minus (Num x) = Num (1 - x)"
| "js_one_minus PosInf = NegInf"
| "js_one_minus NegInf = PosInf"
| "js_one_minus NaN = NaN"

datatype error = LengthMismatch

subsection \<open>The scan shared by \<^verbatim>\<open>hamming\<close> and \<^verbatim>\<open>normalizedDistance\<close>\<close>

text \<open>
  \<^verbatim>\<open>for (let i = 0, l = a.length; i < l; i++) { if (a[i] !== b[i]) distance++; }\<close>
  with the loop variables \<open>i\<close>, \<open>l\<close> and \<open>distance\<close> as arguments.
\<close>

function mismatch_loop :: "'a list \<Rightarrow> 'a list \<Rightarrow> nat \<Rightarrow> nat \<Rightarrow> nat \<Rightarrow> nat" where
  "mismatch_loop a b i l distance =
     (if i < l
      then mismatch_loop a b (i + 1) l
             (if js_nth a i \<noteq> js_nth b i then distance + 1 else distance)
      else distance)"
  by pat_completeness auto
termination
  by (relation "measure (\<lambda>(a, b, i, l, distance). l - i)") auto

declare mismatch_loop.simps [simp del]

subsection \<open>\<^verbatim>\<open>hamming\<close>\<close>

definition hamming :: "'a store \<Rightarrow> 'a seq \<Rightarrow> 'a seq \<Rightarrow> error + nat" where
  "hamming h a b =
     (if strict_eq a b then Inr 0
      else if length (elems h a) \<noteq> length (elems h b) then Inl LengthMismatch
      else Inr (mismatch_loop (elems h a) (elems h b) 0 (length (elems h a)) 0))"

subsection \<open>\<^verbatim>\<open>normalizedDistance\<close> and \<^verbatim>\<open>normalizedSimilarity\<close>\<close>

definition normalizedDistance :: "'a store \<Rightarrow> 'a seq \<Rightarrow> 'a seq \<Rightarrow> jsnum" where
  "normalizedDistance h a b =
     (if strict_eq a b then Num 0
      else
        let (a', b') = (if length (elems h a) > length (elems h b) then (b, a) else (a, b));
            distance = length (elems h b') - length (elems h a')
        in js_div (mismatch_loop (elems h a') (elems h b') 0 (length (elems h a')) distance)
                  (length (elems h b')))"

definition normalizedSimilarity :: "'a store \<Rightarrow> 'a seq \<Rightarrow> 'a seq \<Rightarrow> jsnum" where
  "normalizedSimilarity h a b = js_one_minus (normalizedDistance h a b)"

subsection \<open>\<^verbatim>\<open>bitwise\<close>\<close>

text \<open>
  The operators \<^verbatim>\<open>^\<close> and \<^verbatim>\<open>&\<close> convert each operand with ToInt32, which keeps an
  integer modulo \<open>2 ^ 32\<close>; their result is a 32-bit two's-complement value. The
  subtraction \<^verbatim>\<open>xor - 1\<close> is an ordinary number subtraction, converted again by
  \<^verbatim>\<open>&=\<close>.
\<close>

type_synonym int32 = "32 word"

definition to_int32 :: "int \<Rightarrow> int32" where
  "to_int32 n = word_of_int n"

definition clear_lowest :: "int32 \<Rightarrow> int32" where
  "clear_lowest x = to_int32 (sint x) AND to_int32 (sint x - 1)"

text \<open>\<^verbatim>\<open>while (xor) { d++; xor &= xor - 1; }\<close> with \<open>d\<close> and \<open>xor\<close> as arguments.\<close>

function bitwise_loop :: "nat \<Rightarrow> int32 \<Rightarrow> nat" where
  "bitwise_loop d x = (if x \<noteq> 0 then bitwise_loop (d + 1) (clear_lowest x) else d)"
  by pat_completeness auto
termination
proof (relation "measure (\<lambda>(d, x). unat x)")
  show "wf (measure (\<lambda>(d :: nat, x :: int32). unat x))"
    by simp
next
  fix d :: nat and x :: int32
  assume nz: "x \<noteq> 0"
  have "x AND (x - 1) \<le> x - 1"
    by (rule word_and_le1)
  then have "unat (x AND (x - 1)) \<le> unat (x - 1)"
    by (simp add: word_le_nat_alt)
  moreover have "unat (x - 1) = unat x - 1"
    using nz by (rule unat_minus_one)
  moreover have "unat x \<noteq> 0"
    using nz by (simp add: unat_eq_0)
  ultimately have "unat (clear_lowest x) < unat x"
    by (simp add: clear_lowest_def to_int32_def)
  then show "((d + 1, clear_lowest x), (d, x)) \<in> measure (\<lambda>(d, x). unat x)"
    by simp
qed

declare bitwise_loop.simps [simp del]

definition bitwise :: "int \<Rightarrow> int \<Rightarrow> nat" where
  "bitwise a b = bitwise_loop 0 (to_int32 a XOR to_int32 b)"

subsection \<open>Notions the properties are stated with\<close>

text \<open>
  The positions, below both lengths, at which two sequences differ.
\<close>

definition mismatches :: "'a list \<Rightarrow> 'a list \<Rightarrow> nat set" where
  "mismatches xs ys = {i. i < min (length xs) (length ys) \<and> xs ! i \<noteq> ys ! i}"

text \<open>A number that is a real in the closed interval from 0 to 1.\<close>

fun in_unit_interval :: "jsnum \<Rightarrow> bool" where
  "in_unit_interval (Num x) = (0 \<le> x \<and> x \<le> 1)"
| "in_unit_interval PosInf = False"
| "in_unit_interval NegInf = False"
| "in_unit_interval NaN = False"

text \<open>The number of set bits of a 32-bit pattern, and of a natural number.\<close>

definition popcount :: "int32 \<Rightarrow> nat" where
  "popcount w = length (filter (bit w) [0..<32])"

fun popcount_nat :: "nat \<Rightarrow> nat" where
  "popcount_nat n = (if n = 0 then 0 else n mod 2 + popcount_nat (n div 2))"

declare popcount_nat.simps [simp del]

section \<open>The scan counts mismatches\<close>

lemma mismatch_loop_card:
  "mismatch_loop a b i l d = d + card {j. i \<le> j \<and> j < l \<and> js_nth a j \<noteq> js_nth b j}"
proof (induction a b i l d rule: mismatch_loop.induct)
  case (1 a b i l distance)
  let ?P = "\<lambda>j. js_nth a j \<noteq> js_nth b j"
  show ?case
  proof (cases "i < l")
    case False
    then have "{j. i \<le> j \<and> j < l \<and> ?P j} = {}" by auto
    with False show ?thesis by (simp add: mismatch_loop.simps [of a b i l distance])
  next
    case True
    have split: "{j. i \<le> j \<and> j < l \<and> ?P j} =
        (if ?P i then {i} else {}) \<union> {j. i + 1 \<le> j \<and> j < l \<and> ?P j}"
      using True by (auto simp: Suc_le_eq le_less)
    have fin: "finite {j. i + 1 \<le> j \<and> j < l \<and> ?P j}" by simp
    have notin: "i \<notin> {j. i + 1 \<le> j \<and> j < l \<and> ?P j}" by simp
    have "card {j. i \<le> j \<and> j < l \<and> ?P j} =
        (if ?P i then 1 else 0) + card {j. i + 1 \<le> j \<and> j < l \<and> ?P j}"
      unfolding split using fin notin by (simp del: One_nat_def)
    with True "1.IH" show ?thesis
      by (simp add: mismatch_loop.simps [of a b i l distance])
  qed
qed

lemma mismatch_loop_count:
  assumes "l \<le> length a" "l \<le> length b"
  shows "mismatch_loop a b 0 l d = d + card {j. j < l \<and> a ! j \<noteq> b ! j}"
proof -
  have "{j. 0 \<le> j \<and> j < l \<and> js_nth a j \<noteq> js_nth b j} = {j. j < l \<and> a ! j \<noteq> b ! j}"
    using assms by (auto simp: js_nth_def)
  then show ?thesis by (simp add: mismatch_loop_card)
qed

lemma strict_eq_elems: "strict_eq a b \<Longrightarrow> elems h a = elems h b"
  by (induction a b rule: strict_eq.induct) simp_all

lemma strict_eq_sym: "strict_eq a b = strict_eq b a"
  by (induction a b rule: strict_eq.induct) auto

lemma strict_eq_refl: "strict_eq a a"
  by (cases a) simp_all

lemma finite_mismatches: "finite (mismatches xs ys)"
  by (simp add: mismatches_def)

lemma mismatches_sym: "mismatches xs ys = mismatches ys xs"
  by (auto simp: mismatches_def)

lemma mismatches_same: "mismatches xs xs = {}"
  by (simp add: mismatches_def)

lemma card_mismatches_le: "card (mismatches xs ys) \<le> min (length xs) (length ys)"
proof -
  have "mismatches xs ys \<subseteq> {..<min (length xs) (length ys)}"
    by (auto simp: mismatches_def)
  then have "card (mismatches xs ys) \<le> card {..<min (length xs) (length ys)}"
    by (rule card_mono [rotated]) simp
  then show ?thesis by simp
qed

lemma mismatches_triangle:
  assumes "length xs = length ys" "length ys = length zs"
  shows "card (mismatches xs zs) \<le> card (mismatches xs ys) + card (mismatches ys zs)"
proof -
  have "mismatches xs zs \<subseteq> mismatches xs ys \<union> mismatches ys zs"
    using assms by (auto simp: mismatches_def)
  then have "card (mismatches xs zs) \<le> card (mismatches xs ys \<union> mismatches ys zs)"
    by (rule card_mono [rotated]) (simp add: finite_mismatches)
  also have "\<dots> \<le> card (mismatches xs ys) + card (mismatches ys zs)"
    by (rule card_Un_le)
  finally show ?thesis .
qed

section \<open>\<^verbatim>\<open>hamming\<close>\<close>

lemma hamming_mismatches:
  assumes "length (elems h a) = length (elems h b)"
  shows "hamming h a b = Inr (card (mismatches (elems h a) (elems h b)))"
proof (cases "strict_eq a b")
  case True
  then have "elems h a = elems h b" by (rule strict_eq_elems)
  with True show ?thesis by (simp add: hamming_def mismatches_same)
next
  case False
  with assms show ?thesis by (simp add: hamming_def mismatch_loop_count mismatches_def)
qed



text \<open>
  C2. \<^verbatim>\<open>hamming\<close> throws its length error exactly when the two lengths differ, and returns
  a count exactly when they are equal: a mismatch is never truncated or padded into a
  number. The other three functions have no error result at all: no statement of theirs
  throws, and reading a length, indexing and the bit operators do not fail on sequences
  and numbers.
\<close>

theorem hamming_error_iff:
  "(hamming h a b = Inl LengthMismatch) = (length (elems h a) \<noteq> length (elems h b))
   \<and> ((\<exists>n. hamming h a b = Inr n) = (length (elems h a) = length (elems h b)))"
proof (cases "strict_eq a b")
  case True
  then have "elems h a = elems h b" by (rule strict_eq_elems)
  with True show ?thesis by (simp add: hamming_def)
next
  case False
  then show ?thesis by (simp add: hamming_def)
qed

theorem hamming_error_iff_witness:
  "hamming (\<lambda>r. []) (Str ''abc'') (Str ''ab'') = Inl LengthMismatch
   \<and> length (elems (\<lambda>r. []) (Str ''abc'')) \<noteq> length (elems (\<lambda>r. []) (Str ''ab''))
   \<and> (\<nexists>n. hamming (\<lambda>r. []) (Str ''abc'') (Str ''ab'') = Inr n)"
  using hamming_error_iff [of "\<lambda>r. []" "Str ''abc''" "Str ''ab''"]
  by simp

text \<open>
  C8. On sequences of one common length \<^verbatim>\<open>hamming\<close> returns a count for every pair,
  the counts satisfy the triangle inequality, and the count does not depend on the
  order of the two arguments.
\<close>

theorem hamming_metric:
  assumes "length (elems h a) = length (elems h b)"
    and "length (elems h b) = length (elems h c)"
  shows "\<exists>x y z. hamming h a c = Inr x \<and> hamming h a b = Inr y \<and> hamming h b c = Inr z
           \<and> x \<le> y + z \<and> hamming h b a = Inr y"
proof -
  from assms have ac: "length (elems h a) = length (elems h c)" by simp
  from assms have ba: "length (elems h b) = length (elems h a)" by simp
  show ?thesis
    using mismatches_triangle [OF assms]
    by (simp add: hamming_mismatches [OF ac] hamming_mismatches [OF assms(1)]
        hamming_mismatches [OF assms(2)] hamming_mismatches [OF ba]
        mismatches_sym [of "elems h b" "elems h a"])
qed

theorem hamming_metric_witness:
  "length (elems (\<lambda>r. [1, 2, 3 :: int]) (Str [1, 0, 3]))
     = length (elems (\<lambda>r. [1, 2, 3 :: int]) (Arr 0))
   \<and> length (elems (\<lambda>r. [1, 2, 3 :: int]) (Arr 0))
     = length (elems (\<lambda>r. [1, 2, 3 :: int]) (Str [4, 2, 3]))
   \<and> hamming (\<lambda>r. [1, 2, 3 :: int]) (Str [1, 0, 3]) (Str [4, 2, 3]) = Inr 2
   \<and> hamming (\<lambda>r. [1, 2, 3 :: int]) (Str [1, 0, 3]) (Arr 0) = Inr 1
   \<and> hamming (\<lambda>r. [1, 2, 3 :: int]) (Arr 0) (Str [4, 2, 3]) = Inr 1
   \<and> hamming (\<lambda>r. [1, 2, 3 :: int]) (Arr 0) (Str [1, 0, 3]) = Inr 1"
  using hamming_metric [of "\<lambda>r. [1, 2, 3 :: int]" "Str [1, 0, 3]" "Arr 0" "Str [4, 2, 3]"]
  by (simp add: hamming_def mismatch_loop.simps js_nth_def)

section \<open>\<^verbatim>\<open>normalizedDistance\<close> and \<^verbatim>\<open>normalizedSimilarity\<close>\<close>

lemma normalizedDistance_char:
  "normalizedDistance h a b =
     (if strict_eq a b then Num 0
      else js_div (nat \<bar>int (length (elems h a)) - int (length (elems h b))\<bar>
                     + card (mismatches (elems h a) (elems h b)))
                  (max (length (elems h a)) (length (elems h b))))"
proof (cases "strict_eq a b")
  case True
  then show ?thesis by (simp add: normalizedDistance_def)
next
  case neq: False
  let ?xs = "elems h a" and ?ys = "elems h b"
  show ?thesis
  proof (cases "length ?xs > length ?ys")
    case True
    then have "mismatch_loop ?ys ?xs 0 (length ?ys) (length ?xs - length ?ys)
        = (length ?xs - length ?ys) + card (mismatches ?ys ?xs)"
      by (simp add: mismatch_loop_count mismatches_def min_def)
    moreover have "length ?xs - length ?ys = nat \<bar>int (length ?xs) - int (length ?ys)\<bar>"
      using True by linarith
    moreover have "max (length ?xs) (length ?ys) = length ?xs"
      using True by simp
    ultimately show ?thesis
      using neq True
      by (simp only: normalizedDistance_def mismatches_sym [of ?ys ?xs] if_True if_False
          Let_def split_conv)
  next
    case False
    then have "mismatch_loop ?xs ?ys 0 (length ?xs) (length ?ys - length ?xs)
        = (length ?ys - length ?xs) + card (mismatches ?xs ?ys)"
      by (simp add: mismatch_loop_count mismatches_def min_def)
    moreover have "length ?ys - length ?xs = nat \<bar>int (length ?xs) - int (length ?ys)\<bar>"
      using False by linarith
    moreover have "max (length ?xs) (length ?ys) = length ?ys"
      using False by simp
    ultimately show ?thesis
      using neq False
      by (simp only: normalizedDistance_def if_True if_False Let_def split_conv)
  qed
qed

lemma normalizedDistance_identical: "strict_eq a b \<Longrightarrow> normalizedDistance h a b = Num 0"
  by (simp add: normalizedDistance_def)

text \<open>The same sequence twice, and the empty string twice, are at distance 0.\<close>

lemma normalizedDistance_same: "normalizedDistance h x x = Num 0"
  by (simp add: normalizedDistance_identical strict_eq_refl)

lemma normalizedDistance_empty_strings: "normalizedDistance h (Str []) (Str []) = Num 0"
  by (simp add: normalizedDistance_identical)

text \<open>
  Two sequences with the same elements that are not empty are at distance 0, whether
  or not they are identical: two distinct arrays reach this through the scan.
\<close>

lemma normalizedDistance_equal_contents:
  assumes "elems h a = elems h b" and "elems h a \<noteq> []"
  shows "normalizedDistance h a b = Num 0"
proof -
  from assms have "length (elems h b) \<noteq> 0" by simp
  with assms(1) show ?thesis
    by (simp add: normalizedDistance_char mismatches_same js_div_def)
qed

text \<open>
  Away from two empty sequences that are not identical, both normalized results are
  reals between 0 and 1.
\<close>

lemma normalizedDistance_in_unit_interval:
  assumes "strict_eq a b \<or> elems h a \<noteq> [] \<or> elems h b \<noteq> []"
  shows "in_unit_interval (normalizedDistance h a b)
    \<and> in_unit_interval (normalizedSimilarity h a b)"
proof (cases "strict_eq a b")
  case True
  then show ?thesis
    by (simp add: normalizedSimilarity_def normalizedDistance_identical)
next
  case False
  let ?la = "length (elems h a)" and ?lb = "length (elems h b)"
  let ?n = "nat \<bar>int ?la - int ?lb\<bar> + card (mismatches (elems h a) (elems h b))"
  from False assms have pos: "0 < max ?la ?lb" by (auto simp: less_max_iff_disj)
  have "?n \<le> nat \<bar>int ?la - int ?lb\<bar> + min ?la ?lb"
    using card_mismatches_le [of "elems h a" "elems h b"] by simp
  also have "\<dots> = max ?la ?lb" by linarith
  finally have "real ?n \<le> real (max ?la ?lb)" by (simp only: of_nat_le_iff)
  with pos have "real ?n / real (max ?la ?lb) \<le> 1" by simp
  moreover have "0 \<le> real ?n / real (max ?la ?lb)" by simp
  moreover have "normalizedDistance h a b = Num (real ?n / real (max ?la ?lb))"
  proof -
    from pos have ne: "max ?la ?lb \<noteq> 0" by arith
    show ?thesis
      using False by (simp only: normalizedDistance_char js_div_def ne if_False)
  qed
  ultimately show ?thesis
    by (simp only: normalizedSimilarity_def js_one_minus.simps in_unit_interval.simps) simp
qed



text \<open>
  C4. On two distinct empty arrays \<^verbatim>\<open>normalizedDistance\<close> does not return 0: the test
  \<^verbatim>\<open>a === b\<close> fails on two different objects, the scan leaves the distance at 0, and the
  final \<^verbatim>\<open>0 / 0\<close> is \<^verbatim>\<open>NaN\<close>. The store below holds an empty array at every address.
\<close>

theorem normalizedDistance_distinct_empty_arrays:
  "elems (\<lambda>r. [] :: nat list) (Arr 0) = [] \<and> elems (\<lambda>r. [] :: nat list) (Arr 1) = []
   \<and> normalizedDistance (\<lambda>r. [] :: nat list) (Arr 0) (Arr 1) = NaN"
  by (simp add: normalizedDistance_def mismatch_loop.simps js_div_def)

text \<open>
  C5. On the same two distinct empty arrays neither \<^verbatim>\<open>normalizedDistance\<close> nor
  \<^verbatim>\<open>normalizedSimilarity\<close> returns a real between 0 and 1: both return \<^verbatim>\<open>NaN\<close>.
\<close>

theorem normalized_outside_unit_interval:
  "\<not> in_unit_interval (normalizedDistance (\<lambda>r. [] :: nat list) (Arr 0) (Arr 1))
   \<and> \<not> in_unit_interval (normalizedSimilarity (\<lambda>r. [] :: nat list) (Arr 0) (Arr 1))"
  by (simp add: normalizedSimilarity_def normalizedDistance_def mismatch_loop.simps js_div_def)

text \<open>
  C9. \<^verbatim>\<open>normalizedDistance\<close> does not depend on the order of its two arguments.
\<close>

theorem normalizedDistance_symmetric:
  "normalizedDistance h a b = normalizedDistance h b a"
  by (simp add: normalizedDistance_char strict_eq_sym [of a b] mismatches_sym [of "elems h a"]
      max.commute abs_minus_commute)

section \<open>\<^verbatim>\<open>bitwise\<close>\<close>

text \<open>
  Clearing the lowest set bit lowers the number of set bits by one, first on natural
  numbers, then on 32-bit patterns through their unsigned value.
\<close>

lemma popcount_nat_0: "popcount_nat 0 = 0"
  by (simp add: popcount_nat.simps)

lemma popcount_nat_rec: "popcount_nat n = n mod 2 + popcount_nat (n div 2)"
  by (cases "n = 0") (simp_all add: popcount_nat.simps [of n] popcount_nat_0)

lemma popcount_nat_clear:
  "0 < n \<Longrightarrow> popcount_nat (n AND (n - 1)) + 1 = popcount_nat n"
proof (induction n rule: less_induct)
  case (less n)
  have low: "(n AND (n - 1)) mod 2 = 0"
    using less.prems by (cases "even n") (simp_all add: mod_2_eq_odd and_nat_rec[of n])
  have high: "(n AND (n - 1)) div 2 = (n div 2) AND ((n - 1) div 2)"
    using drop_bit_and [of 1 n "n - 1"] by (simp add: drop_bit_eq_div)
  show ?case
  proof (cases "even n")
    case True
    with less.prems have m: "0 < n div 2" "n div 2 < n" by auto
    from True less.prems have "(n - 1) div 2 = n div 2 - 1" by (auto elim!: evenE)
    with high have "(n AND (n - 1)) div 2 = (n div 2) AND (n div 2 - 1)" by simp
    then have "popcount_nat (n AND (n - 1)) = popcount_nat ((n div 2) AND (n div 2 - 1))"
      using low popcount_nat_rec [of "n AND (n - 1)"] by simp
    moreover have "popcount_nat ((n div 2) AND (n div 2 - 1)) + 1 = popcount_nat (n div 2)"
      using m by (rule less.IH [rotated])
    moreover have "popcount_nat n = popcount_nat (n div 2)"
      using True by (simp add: popcount_nat_rec [of n])
    ultimately show ?thesis by simp
  next
    case False
    then have "(n - 1) div 2 = n div 2" by (auto elim!: oddE)
    with high have "(n AND (n - 1)) div 2 = n div 2" by simp
    then have "popcount_nat (n AND (n - 1)) = popcount_nat (n div 2)"
      using low popcount_nat_rec [of "n AND (n - 1)"] by simp
    moreover have "popcount_nat n = 1 + popcount_nat (n div 2)"
      using False by (simp add: popcount_nat_rec [of n] mod_2_eq_odd)
    ultimately show ?thesis by simp
  qed
qed

lemma popcount_nat_filter:
  "n < 2 ^ k \<Longrightarrow> popcount_nat n = length (filter (bit n) [0..<k])"
proof (induction k arbitrary: n)
  case 0
  then show ?case by (simp add: popcount_nat_0)
next
  case (Suc k)
  then have "n div 2 < 2 ^ k" by simp
  then have IH: "popcount_nat (n div 2) = length (filter (bit (n div 2)) [0..<k])"
    by (rule Suc.IH)
  have "[0..<Suc k] = 0 # map Suc [0..<k]"
    by (simp add: upt_conv_Cons map_Suc_upt del: upt_Suc)
  then have "length (filter (bit n) [0..<Suc k])
      = (if bit n 0 then 1 else 0) + length (filter (bit n \<circ> Suc) [0..<k])"
    by (simp add: filter_map del: upt_Suc)
  also have "bit n \<circ> Suc = bit (n div 2)"
    by (rule ext) (simp add: bit_Suc)
  also have "(if bit n 0 then 1 else 0) = n mod 2"
    by (simp add: bit_0 mod_2_eq_odd)
  finally show ?case
    using IH by (simp add: popcount_nat_rec [of n] del: upt_Suc)
qed

lemma popcount_unat: "popcount w = popcount_nat (unat w)"
proof -
  have "unat w < 2 ^ 32"
    using unsigned_less [of w, where 'a = nat] by simp
  then have "popcount_nat (unat w) = length (filter (bit (unat w)) [0..<32])"
    by (rule popcount_nat_filter)
  also have "bit (unat w) = bit w"
    by (rule ext) (simp add: bit_unsigned_iff)
  finally show ?thesis by (simp add: popcount_def)
qed

lemma clear_lowest_word: "clear_lowest x = x AND (x - 1)"
  by (simp add: clear_lowest_def to_int32_def)

lemma popcount_clear_lowest:
  assumes "x \<noteq> 0"
  shows "popcount (clear_lowest x) + 1 = popcount x"
proof -
  have pos: "0 < unat x"
    using assms by (simp add: unat_gt_0)
  have "unat (clear_lowest x) = unat x AND unat (x - 1)"
    by (simp add: clear_lowest_word unsigned_and_eq)
  also have "unat (x - 1) = unat x - 1"
    using assms by (rule unat_minus_one)
  finally show ?thesis
    using popcount_nat_clear [OF pos] by (simp add: popcount_unat)
qed

lemma popcount_0: "popcount 0 = 0"
  by (simp add: popcount_unat popcount_nat_0)

lemma bitwise_loop_popcount: "bitwise_loop d x = d + popcount x"
proof (induction d x rule: bitwise_loop.induct)
  case (1 d x)
  show ?case
  proof (cases "x = 0")
    case True
    then show ?thesis by (simp add: bitwise_loop.simps [of d 0] popcount_0)
  next
    case False
    with "1.IH" popcount_clear_lowest [OF False] show ?thesis
      by (simp add: bitwise_loop.simps [of d x])
  qed
qed

lemma bitwise_popcount: "bitwise a b = popcount (to_int32 a XOR to_int32 b)"
  by (simp add: bitwise_def bitwise_loop_popcount)

lemma popcount_card: "popcount w = card {i. i < 32 \<and> bit w i}"
proof -
  have "{i. i < 32 \<and> bit w i} = set (filter (bit w) [0..<32])" by auto
  moreover have "distinct (filter (bit w) [0..<32])" by simp
  ultimately show ?thesis
    by (simp only: popcount_def distinct_card)
qed

lemma popcount_le: "popcount w \<le> 32"
proof -
  have "length (filter (bit w) [0..<32]) \<le> length [0..<32]"
    by (rule length_filter_le)
  then show ?thesis by (simp add: popcount_def)
qed

lemma popcount_eq_0: "(popcount w = 0) = (w = 0)"
proof
  assume "popcount w = 0"
  show "w = 0"
  proof (rule ccontr)
    assume "w \<noteq> 0"
    from popcount_clear_lowest [OF this] \<open>popcount w = 0\<close> show False by simp
  qed
qed (simp add: popcount_0)

lemma popcount_funpow:
  "k \<le> popcount x \<Longrightarrow> popcount ((clear_lowest ^^ k) x) = popcount x - k"
proof (induction k)
  case 0
  then show ?case by simp
next
  case (Suc k)
  then have IH: "popcount ((clear_lowest ^^ k) x) = popcount x - k" by simp
  with Suc.prems have "popcount ((clear_lowest ^^ k) x) \<noteq> 0" by simp
  then have "(clear_lowest ^^ k) x \<noteq> 0" by (simp add: popcount_eq_0)
  from popcount_clear_lowest [OF this] IH show ?case by simp
qed

text \<open>
  C6. \<^verbatim>\<open>bitwise\<close> returns the number of set bits of the XOR of its two operands as
  32-bit patterns, which is the number of bit positions below 32 at which the two
  patterns differ; it does not depend on the order of the operands, and 1 and 2 are at
  distance 2.
\<close>

theorem bitwise_is_popcount:
  "bitwise a b = popcount (to_int32 a XOR to_int32 b)
   \<and> bitwise a b = card {i. i < 32 \<and> bit (to_int32 a) i \<noteq> bit (to_int32 b) i}
   \<and> bitwise a b = bitwise b a
   \<and> bitwise 1 2 = 2"
proof -
  have "{i. i < 32 \<and> bit (to_int32 a XOR to_int32 b) i}
      = {i. i < 32 \<and> bit (to_int32 a) i \<noteq> bit (to_int32 b) i}"
    by (auto simp: bit_xor_iff)
  then have "popcount (to_int32 a XOR to_int32 b)
      = card {i. i < 32 \<and> bit (to_int32 a) i \<noteq> bit (to_int32 b) i}"
    by (simp only: popcount_card)
  moreover have "bitwise a b = bitwise b a"
    by (simp add: bitwise_def xor.commute)
  moreover have "bitwise 1 2 = 2"
    by (simp add: bitwise_def to_int32_def bitwise_loop.simps clear_lowest_word)
  ultimately show ?thesis
    by (simp add: bitwise_popcount)
qed

text \<open>
  C7. The loop of \<^verbatim>\<open>bitwise\<close> stops for every pair of operands: the counter \<open>d\<close> grows
  by one in each iteration, so the result is the number of iterations; after that many
  clearing steps the pattern is 0, after fewer it is not, and the number is at most 32.
\<close>

theorem bitwise_terminates:
  "(clear_lowest ^^ bitwise a b) (to_int32 a XOR to_int32 b) = 0
   \<and> (k < bitwise a b \<longrightarrow> (clear_lowest ^^ k) (to_int32 a XOR to_int32 b) \<noteq> 0)
   \<and> bitwise a b \<le> 32"
proof -
  let ?x = "to_int32 a XOR to_int32 b"
  have "popcount ((clear_lowest ^^ popcount ?x) ?x) = 0"
    by (simp add: popcount_funpow)
  then have "(clear_lowest ^^ popcount ?x) ?x = 0"
    by (simp add: popcount_eq_0)
  moreover have "(clear_lowest ^^ k) ?x \<noteq> 0" if "k < popcount ?x"
  proof -
    from that have "popcount ((clear_lowest ^^ k) ?x) = popcount ?x - k"
      by (simp add: popcount_funpow)
    with that have "popcount ((clear_lowest ^^ k) ?x) \<noteq> 0" by simp
    then show ?thesis by (simp add: popcount_eq_0)
  qed
  ultimately show ?thesis
    by (simp add: bitwise_popcount popcount_le)
qed

theorem bitwise_terminates_witness:
  "(clear_lowest ^^ bitwise (- 8) 3) (to_int32 (- 8) XOR to_int32 3) = 0
   \<and> (30::nat) < bitwise (- 8) 3
   \<and> (clear_lowest ^^ 30) (to_int32 (- 8) XOR to_int32 3) \<noteq> 0
   \<and> bitwise (- 8) 3 \<le> 32"
proof -
  have "bitwise (- 8) 3 = 31"
    by (simp add: bitwise_def to_int32_def bitwise_loop.simps clear_lowest_word)
  then show ?thesis
    using bitwise_terminates [of "- 8" 3 30] by simp
qed

text \<open>
  C10. \<^verbatim>\<open>bitwise\<close> sees the low 32 bits of the two's-complement form of each operand
  and nothing else: \<open>-1\<close> and 0 are at distance 32, adding any multiple of \<open>2 ^ 32\<close> to
  an operand leaves the result as it is, and the result is the number of positions
  below 32 at which the operands differ.
\<close>

theorem bitwise_low_32_bits:
  "bitwise (- 1) 0 = 32
   \<and> bitwise (a + k * 2 ^ 32) (b + m * 2 ^ 32) = bitwise a b
   \<and> bitwise a b = card {i. i < 32 \<and> bit a i \<noteq> bit b i}"
proof -
  have "popcount (- 1) = 32"
    by (simp add: popcount_def)
  then have all_ones: "bitwise (- 1) 0 = 32"
    by (simp add: bitwise_popcount to_int32_def)
  have wrap: "to_int32 (n + j * 2 ^ 32) = to_int32 n" for n j
    unfolding to_int32_def word_of_int_eq_iff take_bit_eq_mod by simp
  have high: "bitwise (a + k * 2 ^ 32) (b + m * 2 ^ 32) = bitwise a b"
    by (simp only: bitwise_def wrap)
  have "{i. i < 32 \<and> bit (to_int32 a XOR to_int32 b) i} = {i. i < 32 \<and> bit a i \<noteq> bit b i}"
    by (auto simp: bit_xor_iff to_int32_def bit_word_of_int_iff)
  then have low: "bitwise a b = card {i. i < 32 \<and> bit a i \<noteq> bit b i}"
    by (simp only: bitwise_popcount popcount_card)
  from all_ones high low show ?thesis
    by (intro conjI)
qed

end
